theory Spec2Isabelle
  imports Main "HOL-Library.Multiset"
begin

section \<open>Package idx: identifiers of the form environment:type:object_id\<close>

subsection \<open>Type names\<close>








subsection \<open>Identifiers\<close>






section \<open>Package slicex: the concurrent map\<close>

subsection \<open>Errors and contexts\<close>

text \<open>
  Go's \<open>error\<close> values: the two errors a \<open>context.Context\<close> reports from \<open>Err()\<close>,
  any other error (of a type \<open>'x\<close> the transform chooses), and the value
  \<open>errors.Join\<close> builds, which wraps the errors it was given. A nil error is \<open>None\<close>.
\<close>

datatype 'x error =
    Canceled
  | DeadlineExceeded
  | Failure 'x
  | Joined "'x error list"

text \<open>
  \<open>errors.Join(errs...)\<close>: nil when every argument is nil, otherwise one error
  wrapping the non-nil arguments in their order.
\<close>

definition Join :: "'x error option list \<Rightarrow> 'x error option" where
  "Join es = (let given = [e. Some e \<leftarrow> es] in if given = [] then None else Some (Joined given))"

text \<open>
  The two contexts of \<open>Execute\<close>: the caller's \<open>ctx\<close> and the \<open>child\<close> made by
  \<open>context.WithCancel(ctx)\<close>. A transform can only ask the context it is handed
  for \<open>Done()\<close>/\<open>Err()\<close>, so the transform is a function of which context it got,
  of the \<open>Err()\<close> that context shows to the call, and of the element; it returns a
  result and an error as the Go function does. Every call of the transform returns:
  a transform that blocks for ever or panics is not modelled.
\<close>

datatype ctx_ref = Ambient | Child

record ('a, 'r, 'x) MapConcurrentHandler =
  mapFunc :: "ctx_ref \<Rightarrow> 'x error option \<Rightarrow> 'a \<Rightarrow> 'r \<times> 'x error option"
  concurrency :: int
  stopOnError :: bool

definition MapConcurrent ::
  "(ctx_ref \<Rightarrow> 'x error option \<Rightarrow> 'a \<Rightarrow> 'r \<times> 'x error option) \<Rightarrow> ('a, 'r, 'x) MapConcurrentHandler" where
  "MapConcurrent f = \<lparr>mapFunc = f, concurrency = 8, stopOnError = True\<rparr>"

definition WithConcurrency ::
  "int \<Rightarrow> ('a, 'r, 'x) MapConcurrentHandler \<Rightarrow> ('a, 'r, 'x) MapConcurrentHandler" where
  "WithConcurrency n h = h\<lparr>concurrency := n\<rparr>"


subsection \<open>The state of one call of Execute\<close>

text \<open>
  A job is \<open>mapConcurrentJob{index, value}\<close>, here the pair \<open>(index, value)\<close>.
  A worker goroutine (\<open>startWorker\<close>) is at its \<open>select\<close>, inside the call
  \<open>h.mapFunc(c, v)\<close> for the job \<open>(i, v)\<close>, or has returned (\<open>wg.Done()\<close> ran).
\<close>

type_synonym 'a mapConcurrentJob = "nat \<times> 'a"

datatype 'a worker = Selecting | Running ctx_ref nat 'a | Exited

text \<open>
  What an instrumented run records, in the order it happens: a call of the
  transform starting (with the context handed to it, the job's index and the
  element), a store \<open>results[i] = v\<close>, a store \<open>errs[i] = err\<close>.
\<close>

datatype ('a, 'r, 'x) event =
    Invoke ctx_ref nat 'a
  | SetResult nat 'r
  | SetError nat "'x error"

text \<open>
  The variables of \<open>Execute\<close> once the pool is set up: the slices \<open>results\<close> and
  \<open>errs\<close>, the buffer of the channel \<open>jobs\<close> and whether it is closed (the sender
  goroutine closes it when it returns, so \<open>closed\<close> also says the sender is gone),
  \<open>ctx.Err()\<close> and \<open>child.Err()\<close>, the worker goroutines, the index the sender's
  \<open>range\<close> loop is at, and the record of the run so far.
\<close>

record ('a, 'r, 'x) pool =
  results :: "'r list"
  errs :: "'x error option list"
  jobs :: "'a mapConcurrentJob list"
  closed :: bool
  ctx_err :: "'x error option"
  child_err :: "'x error option"
  workers :: "'a worker list"
  next_job :: nat
  history :: "('a, 'r, 'x) event list"

definition Err :: "ctx_ref \<Rightarrow> ('a, 'r, 'x) pool \<Rightarrow> 'x error option" where
  "Err c s = (case c of Ambient \<Rightarrow> ctx_err s | Child \<Rightarrow> child_err s)"

definition child_done :: "('a, 'r, 'x) pool \<Rightarrow> bool" where
  "child_done s = (child_err s \<noteq> None)"

text \<open>\<open>cancel()\<close> of \<open>child\<close>: the first cancellation sets \<open>child.Err()\<close>, later ones
  change nothing.\<close>

definition cancel :: "('a, 'r, 'x) pool \<Rightarrow> ('a, 'r, 'x) pool" where
  "cancel s = (if child_err s = None then s\<lparr>child_err := Some Canceled\<rparr> else s)"

text \<open>
  \<open>numWorkers := h.concurrency; if n := len(items); n < numWorkers { numWorkers = n }\<close>
\<close>

definition numWorkers :: "('a, 'r, 'x) MapConcurrentHandler \<Rightarrow> 'a list \<Rightarrow> int" where
  "numWorkers h items =
     (let n = int (length items) in if n < concurrency h then n else concurrency h)"

text \<open>
  The state after \<open>make\<close>, \<open>context.WithCancel\<close> and the \<open>go\<close> statements:
  \<open>results\<close> holds \<open>len(items)\<close> zero values (\<open>zero\<close> is the zero value of the
  result type), \<open>errs\<close> holds \<open>len(items)+1\<close> nils, the channel is empty, \<open>child\<close> is
  already cancelled when \<open>ctx\<close> is, \<open>numWorkers\<close> workers are at their \<open>select\<close>.
\<close>

definition start ::
  "('a, 'r, 'x) MapConcurrentHandler \<Rightarrow> 'r \<Rightarrow> 'x error option \<Rightarrow> 'a list \<Rightarrow> ('a, 'r, 'x) pool" where
  "start h zero ctx items =
     \<lparr>results = replicate (length items) zero,
      errs = replicate (length items + 1) None,
      jobs = [],
      closed = False,
      ctx_err = ctx,
      child_err = ctx,
      workers = replicate (nat (numWorkers h items)) Selecting,
      next_job = 0,
      history = []\<rparr>"

subsection \<open>The steps of the goroutines\<close>

text \<open>
  The goroutines interleave; a schedule names, step by step, who moves.
  \<^item> \<open>CtxCancel e\<close>: the caller cancels \<open>ctx\<close> or its deadline passes; \<open>ctx.Err()\<close>
    becomes \<open>e\<close>.
  \<^item> \<open>CtxReachesChild\<close>: the cancellation of \<open>ctx\<close> reaches \<open>child\<close>.
  \<^item> \<open>SendJob\<close>: the sender's \<open>select\<close> takes \<open>jobs <- mapConcurrentJob{i, item}\<close>.
  \<^item> \<open>SendStop\<close>: the sender's \<open>select\<close> takes \<open><-child.Done()\<close> and returns; the
    deferred \<open>close(jobs)\<close> runs.
  \<^item> \<open>SendEnd\<close>: the sender's loop is over; the deferred \<open>close(jobs)\<close> runs.
  \<^item> \<open>WorkerStop k\<close>: worker \<open>k\<close>'s \<open>select\<close> takes \<open><-child.Done()\<close> and returns.
  \<^item> \<open>WorkerTake k\<close>: worker \<open>k\<close>'s \<open>select\<close> receives a job and calls
    \<open>h.mapFunc(ctx, item.value)\<close>.
  \<^item> \<open>WorkerDrained k\<close>: worker \<open>k\<close> receives from the closed, empty channel
    (\<open>!ok\<close>) and returns.
  \<^item> \<open>WorkerReturn k\<close>: the call of worker \<open>k\<close> returns, having seen the \<open>Err()\<close>
    its context shows at that moment; the worker stores the error (and under
    \<open>stopOnError\<close> cancels \<open>child\<close> and returns) or stores the result, and is back
    at its \<open>select\<close>. The stores are seen by no other goroutine before
    \<open>wg.Wait()\<close> is over, so the step is taken as one.
  Where a \<open>select\<close> has several cases ready, each of them is a step that can be
  made: Go picks one at random.
\<close>

datatype 'x move =
    CtxCancel "'x error"
  | CtxReachesChild
  | SendJob
  | SendStop
  | SendEnd
  | WorkerStop nat
  | WorkerTake nat
  | WorkerDrained nat
  | WorkerReturn nat

definition set_worker :: "nat \<Rightarrow> 'a worker \<Rightarrow> ('a, 'r, 'x) pool \<Rightarrow> ('a, 'r, 'x) pool" where
  "set_worker k w s = s\<lparr>workers := (workers s)[k := w]\<rparr>"

definition selecting :: "nat \<Rightarrow> ('a, 'r, 'x) pool \<Rightarrow> bool" where
  "selecting k s = (k < length (workers s) \<and> workers s ! k = Selecting)"

text \<open>The end of a call of the transform in \<open>startWorker\<close>, for the job \<open>(i, v)\<close> of
  worker \<open>k\<close> called with context \<open>c\<close>.\<close>

definition finish_call ::
  "('a, 'r, 'x) MapConcurrentHandler \<Rightarrow> nat \<Rightarrow> ctx_ref \<Rightarrow> nat \<Rightarrow> 'a \<Rightarrow> ('a, 'r, 'x) pool
     \<Rightarrow> ('a, 'r, 'x) pool" where
  "finish_call h k c i v s =
     (case mapFunc h c (Err c s) v of
        (r, Some e) \<Rightarrow>
          let s1 = s\<lparr>errs := (errs s)[i := Some e], history := history s @ [SetError i e]\<rparr> in
          if stopOnError h then set_worker k Exited (cancel s1)
          else set_worker k Selecting s1
      | (r, None) \<Rightarrow>
          set_worker k Selecting
            (s\<lparr>results := (results s)[i := r], history := history s @ [SetResult i r]\<rparr>))"

text \<open>One step; \<open>None\<close> when the named goroutine cannot make that step in \<open>s\<close>.\<close>

fun exec ::
  "('a, 'r, 'x) MapConcurrentHandler \<Rightarrow> 'a list \<Rightarrow> 'x move \<Rightarrow> ('a, 'r, 'x) pool
     \<Rightarrow> ('a, 'r, 'x) pool option" where
  "exec h items (CtxCancel e) s =
     (if ctx_err s = None then Some (s\<lparr>ctx_err := Some e\<rparr>) else None)"
| "exec h items CtxReachesChild s =
     (if ctx_err s \<noteq> None \<and> child_err s = None then Some (s\<lparr>child_err := ctx_err s\<rparr>)
      else None)"
| "exec h items SendJob s =
     (if \<not> closed s \<and> next_job s < length items \<and> length (jobs s) < length items
      then Some (s\<lparr>jobs := jobs s @ [(next_job s, items ! next_job s)],
                   next_job := Suc (next_job s)\<rparr>)
      else None)"
| "exec h items SendStop s =
     (if \<not> closed s \<and> next_job s < length items \<and> child_done s
      then Some (s\<lparr>closed := True\<rparr>) else None)"
| "exec h items SendEnd s =
     (if \<not> closed s \<and> \<not> next_job s < length items
      then Some (s\<lparr>closed := True\<rparr>) else None)"
| "exec h items (WorkerStop k) s =
     (if selecting k s \<and> child_done s then Some (set_worker k Exited s) else None)"
| "exec h items (WorkerTake k) s =
     (if selecting k s
      then (case jobs s of
              [] \<Rightarrow> None
            | (i, v) # rest \<Rightarrow>
                Some (set_worker k (Running Ambient i v)
                       (s\<lparr>jobs := rest, history := history s @ [Invoke Ambient i v]\<rparr>)))
      else None)"
| "exec h items (WorkerDrained k) s =
     (if selecting k s \<and> jobs s = [] \<and> closed s then Some (set_worker k Exited s) else None)"
| "exec h items (WorkerReturn k) s =
     (if k < length (workers s)
      then (case workers s ! k of
              Running c i v \<Rightarrow> Some (finish_call h k c i v s)
            | _ \<Rightarrow> None)
      else None)"

text \<open>A schedule run from a state; \<open>None\<close> when some step of it cannot be made.\<close>

fun run ::
  "('a, 'r, 'x) MapConcurrentHandler \<Rightarrow> 'a list \<Rightarrow> 'x move list \<Rightarrow> ('a, 'r, 'x) pool
     \<Rightarrow> ('a, 'r, 'x) pool option" where
  "run h items [] s = Some s"
| "run h items (m # ms) s =
     (case exec h items m s of None \<Rightarrow> None | Some s' \<Rightarrow> run h items ms s')"

subsection \<open>Execute\<close>

text \<open>
  What a call returns: the pair \<open>([]R, error)\<close> with nil as \<open>None\<close>, or the panic of
  \<open>wg.Add\<close> on a negative count (\<open>sync: negative WaitGroup counter\<close>).
\<close>

datatype ('r, 'x) outcome =
    Return "'r list option" "'x error option"
  | PanicNegativeCounter

text \<open>\<open>wg.Wait()\<close> returns once every worker has run \<open>wg.Done()\<close>.\<close>

definition wait_over :: "('a, 'r, 'x) pool \<Rightarrow> bool" where
  "wait_over s = list_all (\<lambda>w. w = Exited) (workers s)"

text \<open>The slice \<open>errs\<close> after \<open>errs = append(errs, ctx.Err())\<close>.\<close>

definition final_errs :: "('a, 'r, 'x) pool \<Rightarrow> 'x error option list" where
  "final_errs s = errs s @ [ctx_err s]"

definition collect :: "('a, 'r, 'x) pool \<Rightarrow> ('r, 'x) outcome" where
  "collect s =
     (case Join (final_errs s) of
        Some err \<Rightarrow> Return None (Some err)
      | None \<Rightarrow> Return (Some (results s)) None)"


text \<open>
  The pool of a call as it stands after the steps \<open>sch\<close>: there is none when
  \<open>Execute\<close> returns for the empty input or \<open>wg.Add\<close> panics, and none when \<open>sch\<close>
  is not a sequence of steps the goroutines can make.
\<close>

definition Execute_pool ::
  "('a, 'r, 'x) MapConcurrentHandler \<Rightarrow> 'r \<Rightarrow> 'x error option \<Rightarrow> 'a list \<Rightarrow> 'x move list
     \<Rightarrow> ('a, 'r, 'x) pool option" where
  "Execute_pool h zero ctx items sch =
     (if length items = 0 then None
      else if numWorkers h items < 0 then None
      else run h items sch (start h zero ctx items))"

text \<open>
  A finished call: what it returned, how many worker goroutines it started, and
  the record of its run.
\<close>

record ('a, 'r, 'x) execution =
  returned :: "('r, 'x) outcome"
  spawned :: nat
  observed :: "('a, 'r, 'x) event list"

text \<open>
  \<open>Execute(ctx, items)\<close> under the schedule \<open>sch\<close>; \<open>ctx\<close> is \<open>ctx.Err()\<close> at the
  call. The empty input returns at once and a negative worker count panics in
  \<open>wg.Add\<close>, whatever the schedule. Otherwise the goroutines make the steps of
  \<open>sch\<close>; the call returns if \<open>wg.Wait()\<close> is over by then, with \<open>ctx.Err()\<close>
  appended to \<open>errs\<close> and joined. \<open>None\<close>: \<open>sch\<close> is not a run of the call up to
  its return.
\<close>

definition Execute ::
  "('a, 'r, 'x) MapConcurrentHandler \<Rightarrow> 'r \<Rightarrow> 'x error option \<Rightarrow> 'a list \<Rightarrow> 'x move list
     \<Rightarrow> ('a, 'r, 'x) execution option" where
  "Execute h zero ctx items sch =
     (if length items = 0
      then Some \<lparr>returned = Return None None, spawned = 0, observed = []\<rparr>
      else if numWorkers h items < 0
      then Some \<lparr>returned = PanicNegativeCounter, spawned = 0, observed = []\<rparr>
      else (case run h items sch (start h zero ctx items) of
              None \<Rightarrow> None
            | Some s \<Rightarrow>
                if wait_over s
                then Some \<lparr>returned = collect s, spawned = length (workers s),
                           observed = history s\<rparr>
                else None))"

subsection \<open>The transforms of the tests\<close>

text \<open>
  \<open>TestMapConcurrent\<close> maps with a doubling function, with one that fails at the
  element 3 (or at 3 and 4) and doubles the others, and with one that returns
  \<open>ctx.Err()\<close> once its context is done.
\<close>

definition double :: "ctx_ref \<Rightarrow> string error option \<Rightarrow> int \<Rightarrow> int \<times> string error option" where
  "double c seen n = (n * 2, None)"




subsection \<open>Bookkeeping for the proofs\<close>

text \<open>
  The indices of the jobs waiting in the channel, of the calls in flight, of the
  stores made and of the calls started.
\<close>

fun flying_at :: "'a worker \<Rightarrow> nat list" where
  "flying_at (Running c i v) = [i]"
| "flying_at Selecting = []"
| "flying_at Exited = []"

fun stored_at :: "('a, 'r, 'x) event \<Rightarrow> nat list" where
  "stored_at (SetResult i r) = [i]"
| "stored_at (SetError i e) = [i]"
| "stored_at (Invoke c i v) = []"

fun invoked_at :: "('a, 'r, 'x) event \<Rightarrow> nat list" where
  "invoked_at (Invoke c i v) = [i]"
| "invoked_at (SetResult i r) = []"
| "invoked_at (SetError i e) = []"

definition queued :: "('a, 'r, 'x) pool \<Rightarrow> nat list" where
  "queued s = map fst (jobs s)"

definition flying :: "('a, 'r, 'x) pool \<Rightarrow> nat list" where
  "flying s = concat (map flying_at (workers s))"

definition stored :: "('a, 'r, 'x) event list \<Rightarrow> nat list" where
  "stored evs = concat (map stored_at evs)"

definition invoked :: "('a, 'r, 'x) event list \<Rightarrow> nat list" where
  "invoked evs = concat (map invoked_at evs)"

text \<open>A bound on the number of steps the goroutines can still make.\<close>

fun worker_weight :: "'a worker \<Rightarrow> nat" where
  "worker_weight Selecting = 1"
| "worker_weight (Running c i v) = 2"
| "worker_weight Exited = 0"

definition steps_left :: "'a list \<Rightarrow> ('a, 'r, 'x) pool \<Rightarrow> nat" where
  "steps_left items s =
     3 * (length items - next_job s) + (if closed s then 0 else 1) + 2 * length (jobs s)
     + sum_list (map worker_weight (workers s))
     + (if ctx_err s = None then 1 else 0) + (if child_err s = None then 1 else 0)"

text \<open>A schedule in which the caller's context is not cancelled.\<close>

fun is_CtxCancel :: "'x move \<Rightarrow> bool" where
  "is_CtxCancel (CtxCancel e) = True"
| "is_CtxCancel _ = False"

definition no_cancel :: "'x move list \<Rightarrow> bool" where
  "no_cancel sch = list_all (\<lambda>m. \<not> is_CtxCancel m) sch"

text \<open>What holds of the pool in every state of every run (proved below).\<close>

definition inv_shape ::
  "('a, 'r, 'x) MapConcurrentHandler \<Rightarrow> 'a list \<Rightarrow> ('a, 'r, 'x) pool \<Rightarrow> bool" where
  "inv_shape h items s =
     (length (results s) = length items \<and> length (errs s) = Suc (length items)
      \<and> next_job s \<le> length items \<and> length (workers s) = nat (numWorkers h items))"

definition inv_count :: "('a, 'r, 'x) pool \<Rightarrow> bool" where
  "inv_count s =
     (mset (queued s) + mset (flying s) + mset (stored (history s)) = mset [0..<next_job s]
      \<and> mset (invoked (history s)) = mset (flying s) + mset (stored (history s)))"

definition inv_vals :: "'a list \<Rightarrow> ('a, 'r, 'x) pool \<Rightarrow> bool" where
  "inv_vals items s =
     ((\<forall>i v. (i, v) \<in> set (jobs s) \<longrightarrow> v = items ! i)
      \<and> (\<forall>c i v. Running c i v \<in> set (workers s) \<longrightarrow> c = Ambient \<and> v = items ! i)
      \<and> (\<forall>c i v. Invoke c i v \<in> set (history s) \<longrightarrow> c = Ambient \<and> v = items ! i))"

definition inv_slots :: "'r \<Rightarrow> 'a list \<Rightarrow> ('a, 'r, 'x) pool \<Rightarrow> bool" where
  "inv_slots zero items s =
     ((\<forall>i r. SetResult i r \<in> set (history s) \<longrightarrow> results s ! i = r \<and> errs s ! i = None)
      \<and> (\<forall>i e. SetError i e \<in> set (history s) \<longrightarrow> errs s ! i = Some e \<and> results s ! i = zero)
      \<and> (\<forall>i. i \<notin> set (stored (history s)) \<longrightarrow>
            (i \<le> length items \<longrightarrow> errs s ! i = None)
            \<and> (i < length items \<longrightarrow> results s ! i = zero)))"

definition inv_causes ::
  "('a, 'r, 'x) MapConcurrentHandler \<Rightarrow> 'a list \<Rightarrow> ('a, 'r, 'x) pool \<Rightarrow> bool" where
  "inv_causes h items s =
     ((child_err s \<noteq> None \<longrightarrow>
         ctx_err s \<noteq> None \<or> (stopOnError h \<and> (\<exists>i e. SetError i e \<in> set (history s))))
      \<and> (closed s \<longrightarrow> next_job s = length items \<or> child_err s \<noteq> None)
      \<and> (Exited \<in> set (workers s) \<longrightarrow> child_err s \<noteq> None \<or> (jobs s = [] \<and> closed s)))"

definition inv_seen ::
  "('a, 'r, 'x) MapConcurrentHandler \<Rightarrow> 'a list \<Rightarrow> ('a, 'r, 'x) pool \<Rightarrow> bool" where
  "inv_seen h items s =
     ((\<forall>i r. SetResult i r \<in> set (history s) \<longrightarrow>
          (\<exists>seen. mapFunc h Ambient seen (items ! i) = (r, None)
                  \<and> (ctx_err s = None \<longrightarrow> seen = None)))
      \<and> (\<forall>i e. SetError i e \<in> set (history s) \<longrightarrow>
          (\<exists>seen r. mapFunc h Ambient seen (items ! i) = (r, Some e)
                  \<and> (ctx_err s = None \<longrightarrow> seen = None))))"

definition inv ::
  "('a, 'r, 'x) MapConcurrentHandler \<Rightarrow> 'r \<Rightarrow> 'a list \<Rightarrow> ('a, 'r, 'x) pool \<Rightarrow> bool" where
  "inv h zero items s =
     (inv_shape h items s \<and> inv_count s \<and> inv_vals items s \<and> inv_slots zero items s
      \<and> inv_causes h items s \<and> inv_seen h items s)"

section \<open>Theorems about package idx\<close>





section \<open>Runs of the pool\<close>

subsection \<open>Steps\<close>

lemma run_append:
  "run h items (a @ b) s = (case run h items a s of None \<Rightarrow> None | Some s' \<Rightarrow> run h items b s')"
  by (induction a arbitrary: s) (auto split: option.splits)

lemma run_invariant:
  assumes "run h items sch s = Some s'" and "P s"
    and "\<And>m t t'. P t \<Longrightarrow> exec h items m t = Some t' \<Longrightarrow> P t'"
  shows "P s'"
  using assms(1,2)
proof (induction sch arbitrary: s)
  case Nil
  then show ?case by simp
next
  case (Cons m ms)
  then show ?case by (auto split: option.splits intro: assms(3))
qed

lemma finish_call_cases [case_names Ok ErrStop ErrGo]:
  obtains
    r where "mapFunc h c (Err c s) v = (r, None)"
      and "finish_call h k c i v s =
             s\<lparr>results := (results s)[i := r], history := history s @ [SetResult i r],
               workers := (workers s)[k := Selecting]\<rparr>"
  | r e where "mapFunc h c (Err c s) v = (r, Some e)" and "stopOnError h"
      and "finish_call h k c i v s =
             s\<lparr>errs := (errs s)[i := Some e], history := history s @ [SetError i e],
               child_err := (if child_err s = None then Some Canceled else child_err s),
               workers := (workers s)[k := Exited]\<rparr>"
  | r e where "mapFunc h c (Err c s) v = (r, Some e)" and "\<not> stopOnError h"
      and "finish_call h k c i v s =
             s\<lparr>errs := (errs s)[i := Some e], history := history s @ [SetError i e],
               workers := (workers s)[k := Selecting]\<rparr>"
proof (cases "mapFunc h c (Err c s) v")
  case (Pair r eo)
  show ?thesis
  proof (cases eo)
    case None
    with Pair that(1) show ?thesis
      by (simp add: finish_call_def set_worker_def)
  next
    case (Some e)
    show ?thesis
    proof (cases "stopOnError h")
      case True
      have "finish_call h k c i v s =
             s\<lparr>errs := (errs s)[i := Some e], history := history s @ [SetError i e],
               child_err := (if child_err s = None then Some Canceled else child_err s),
               workers := (workers s)[k := Exited]\<rparr>"
        using Pair Some True
        by (cases "child_err s = None")
          (simp_all add: finish_call_def set_worker_def cancel_def Let_def)
      with Pair Some True that(2) show ?thesis by simp
    next
      case False
      with Pair Some that(3) show ?thesis
        by (simp add: finish_call_def set_worker_def)
    qed
  qed
qed

lemma exec_cases [consumes 1, case_names CtxCancel CtxReachesChild SendJob SendStop SendEnd
    WorkerStop WorkerTake WorkerDrained ReturnOk ReturnErrStop ReturnErrGo]:
  assumes "exec h items m s = Some s'"
  obtains
    e where "m = CtxCancel e" "ctx_err s = None" "s' = s\<lparr>ctx_err := Some e\<rparr>"
  | "m = CtxReachesChild" "ctx_err s \<noteq> None" "child_err s = None"
      "s' = s\<lparr>child_err := ctx_err s\<rparr>"
  | "m = SendJob" "\<not> closed s" "next_job s < length items" "length (jobs s) < length items"
      "s' = s\<lparr>jobs := jobs s @ [(next_job s, items ! next_job s)], next_job := Suc (next_job s)\<rparr>"
  | "m = SendStop" "\<not> closed s" "next_job s < length items" "child_err s \<noteq> None"
      "s' = s\<lparr>closed := True\<rparr>"
  | "m = SendEnd" "\<not> closed s" "\<not> next_job s < length items" "s' = s\<lparr>closed := True\<rparr>"
  | k where "m = WorkerStop k" "k < length (workers s)" "workers s ! k = Selecting"
      "child_err s \<noteq> None" "s' = s\<lparr>workers := (workers s)[k := Exited]\<rparr>"
  | k i v rest where "m = WorkerTake k" "k < length (workers s)" "workers s ! k = Selecting"
      "jobs s = (i, v) # rest"
      "s' = s\<lparr>jobs := rest, history := history s @ [Invoke Ambient i v],
              workers := (workers s)[k := Running Ambient i v]\<rparr>"
  | k where "m = WorkerDrained k" "k < length (workers s)" "workers s ! k = Selecting"
      "jobs s = []" "closed s" "s' = s\<lparr>workers := (workers s)[k := Exited]\<rparr>"
  | k c i v r where "m = WorkerReturn k" "k < length (workers s)" "workers s ! k = Running c i v"
      "mapFunc h c (Err c s) v = (r, None)"
      "s' = s\<lparr>results := (results s)[i := r], history := history s @ [SetResult i r],
              workers := (workers s)[k := Selecting]\<rparr>"
  | k c i v r e where "m = WorkerReturn k" "k < length (workers s)"
      "workers s ! k = Running c i v" "mapFunc h c (Err c s) v = (r, Some e)" "stopOnError h"
      "s' = s\<lparr>errs := (errs s)[i := Some e], history := history s @ [SetError i e],
              child_err := (if child_err s = None then Some Canceled else child_err s),
              workers := (workers s)[k := Exited]\<rparr>"
  | k c i v r e where "m = WorkerReturn k" "k < length (workers s)"
      "workers s ! k = Running c i v" "mapFunc h c (Err c s) v = (r, Some e)"
      "\<not> stopOnError h"
      "s' = s\<lparr>errs := (errs s)[i := Some e], history := history s @ [SetError i e],
              workers := (workers s)[k := Selecting]\<rparr>"
proof (cases m)
  case (CtxCancel e)
  with assms that(1) show ?thesis by (simp split: if_splits)
next
  case CtxReachesChild
  with assms that(2) show ?thesis by (simp split: if_splits)
next
  case SendJob
  with assms that(3) show ?thesis by (simp split: if_splits)
next
  case SendStop
  with assms that(4) show ?thesis by (simp add: child_done_def split: if_splits)
next
  case SendEnd
  with assms that(5) show ?thesis by (simp split: if_splits)
next
  case (WorkerStop k)
  with assms that(6) show ?thesis
    by (simp add: child_done_def selecting_def set_worker_def split: if_splits)
next
  case (WorkerTake k)
  with assms that(7) [of k] show ?thesis
    by (simp add: selecting_def set_worker_def split: if_splits list.splits prod.splits)
next
  case (WorkerDrained k)
  with assms that(8) show ?thesis
    by (simp add: selecting_def set_worker_def split: if_splits)
next
  case (WorkerReturn k)
  with assms obtain c i v where k: "k < length (workers s)" and w: "workers s ! k = Running c i v"
    and s': "s' = finish_call h k c i v s"
    by (auto split: if_splits worker.splits)
  show ?thesis
  proof (cases rule: finish_call_cases [of h c s v k i])
    case (Ok r)
    with WorkerReturn k w s' that(9) show ?thesis by simp
  next
    case (ErrStop r e)
    with WorkerReturn k w s' that(10) show ?thesis by simp
  next
    case (ErrGo r e)
    with WorkerReturn k w s' that(11) show ?thesis by simp
  qed
qed

lemma sum_weight_update:
  "k < length ws \<Longrightarrow>
   sum_list (map worker_weight (ws[k := w])) + worker_weight (ws ! k)
     = sum_list (map worker_weight ws) + worker_weight w"
proof (induction ws arbitrary: k)
  case Nil
  then show ?case by simp
next
  case (Cons a ws)
  then show ?case by (cases k) (simp_all add: add.assoc add.left_commute)
qed

lemma exec_decreases:
  assumes "exec h items m s = Some s'"
  shows "steps_left items s' < steps_left items s"
  using assms
proof (cases rule: exec_cases)
  case (WorkerStop k)
  with sum_weight_update [of k "workers s" Exited] show ?thesis
    by (simp add: steps_left_def)
next
  case (WorkerTake k i v rest)
  with sum_weight_update [of k "workers s" "Running Ambient i v"] show ?thesis
    by (simp add: steps_left_def)
next
  case (WorkerDrained k)
  with sum_weight_update [of k "workers s" Exited] show ?thesis
    by (simp add: steps_left_def)
next
  case (ReturnOk k c i v r)
  with sum_weight_update [of k "workers s" Selecting] show ?thesis
    by (simp add: steps_left_def)
next
  case (ReturnErrStop k c i v r e)
  with sum_weight_update [of k "workers s" Exited] show ?thesis
    by (simp add: steps_left_def)
next
  case (ReturnErrGo k c i v r e)
  with sum_weight_update [of k "workers s" Selecting] show ?thesis
    by (simp add: steps_left_def)
qed (auto simp: steps_left_def)

subsection \<open>Invariants of the pool\<close>

lemma mset_flying_update:
  "k < length ws \<Longrightarrow>
   mset (concat (map flying_at (ws[k := w]))) + mset (flying_at (ws ! k))
     = mset (concat (map flying_at ws)) + mset (flying_at w)"
proof (induction ws arbitrary: k)
  case Nil
  then show ?case by simp
next
  case (Cons a ws)
  then show ?case by (cases k) (simp_all add: add.assoc add.left_commute)
qed

lemma flying_same:
  assumes "k < length (workers s)" "flying_at (workers s ! k) = []" "flying_at w = []"
    "workers s' = (workers s)[k := w]"
  shows "mset (flying s') = mset (flying s)"
  using mset_flying_update [OF assms(1), of w] assms(2-4) by (simp add: flying_def)

lemma flying_take:
  assumes "k < length (workers s)" "workers s ! k = Selecting"
    "workers s' = (workers s)[k := Running c i v]"
  shows "mset (flying s') = add_mset i (mset (flying s))"
  using mset_flying_update [OF assms(1), of "Running c i v"] assms(2-3) by (simp add: flying_def)

lemma flying_return:
  assumes "k < length (workers s)" "workers s ! k = Running c i v" "flying_at w = []"
    "workers s' = (workers s)[k := w]"
  shows "mset (flying s) = add_mset i (mset (flying s'))"
  using mset_flying_update [OF assms(1), of w] assms(2-4) by (simp add: flying_def)

lemma stored_snoc [simp]: "stored (evs @ [ev]) = stored evs @ stored_at ev"
  by (simp add: stored_def)

lemma invoked_snoc [simp]: "invoked (evs @ [ev]) = invoked evs @ invoked_at ev"
  by (simp add: invoked_def)

lemma SetResult_stored: "SetResult i r \<in> set evs \<Longrightarrow> i \<in> set (stored evs)"
  by (force simp: stored_def)

lemma SetError_stored: "SetError i e \<in> set evs \<Longrightarrow> i \<in> set (stored evs)"
  by (force simp: stored_def)

lemma stored_cases:
  "i \<in> set (stored evs) \<Longrightarrow> (\<exists>r. SetResult i r \<in> set evs) \<or> (\<exists>e. SetError i e \<in> set evs)"
proof -
  assume "i \<in> set (stored evs)"
  then obtain ev where ev: "ev \<in> set evs" "i \<in> set (stored_at ev)"
    by (auto simp: stored_def)
  show ?thesis by (cases ev) (use ev in auto)
qed


lemma inv_shape_exec:
  assumes "exec h items m s = Some s'" "inv_shape h items s"
  shows "inv_shape h items s'"
  using assms by (cases rule: exec_cases) (auto simp: inv_shape_def)

lemma inv_count_exec:
  assumes "exec h items m s = Some s'" "inv_count s"
  shows "inv_count s'"
  using assms(1)
proof (cases rule: exec_cases)
  case (WorkerStop k)
  with flying_same [of k s Exited s'] assms(2) show ?thesis
    by (simp add: inv_count_def queued_def)
next
  case (WorkerTake k i v rest)
  with flying_take [of k s s' Ambient i v] assms(2) show ?thesis
    by (simp add: inv_count_def queued_def)
next
  case (WorkerDrained k)
  with flying_same [of k s Exited s'] assms(2) show ?thesis
    by (simp add: inv_count_def queued_def)
next
  case (ReturnOk k c i v r)
  with flying_return [of k s c i v Selecting s'] assms(2) show ?thesis
    by (simp add: inv_count_def queued_def)
next
  case (ReturnErrStop k c i v r e)
  with flying_return [of k s c i v Exited s'] assms(2) show ?thesis
    by (simp add: inv_count_def queued_def)
next
  case (ReturnErrGo k c i v r e)
  with flying_return [of k s c i v Selecting s'] assms(2) show ?thesis
    by (simp add: inv_count_def queued_def)
qed (use assms(2) in \<open>auto simp: inv_count_def queued_def flying_def\<close>)

lemma in_set_update: "x \<in> set (ws[k := w]) \<Longrightarrow> x = w \<or> x \<in> set ws"
  using set_update_subset_insert [of ws k w] by auto

lemma inv_vals_exec:
  assumes "exec h items m s = Some s'" "inv_vals items s"
  shows "inv_vals items s'"
  using assms
  by (cases rule: exec_cases) (auto simp: inv_vals_def dest!: in_set_update)

lemma count_upt: "count (mset [0..<n]) i = (if i < n then 1 else 0)"
  by (induction n) auto

lemma inv_count_at:
  assumes "inv_count s"
  shows "count (mset (queued s)) i + count (mset (flying s)) i
           + count (mset (stored (history s))) i = (if i < next_job s then 1 else 0)"
proof -
  from assms have "mset (queued s) + mset (flying s) + mset (stored (history s))
      = mset [0..<next_job s]"
    by (simp add: inv_count_def)
  then have "count (mset (queued s) + mset (flying s) + mset (stored (history s))) i
      = count (mset [0..<next_job s]) i"
    by simp
  then show ?thesis by (simp add: count_upt)
qed

lemma flying_fresh:
  assumes "inv_count s" "i \<in> set (flying s)"
  shows "i \<notin> set (stored (history s)) \<and> i < next_job s"
proof -
  from assms(2) have "i \<in># mset (flying s)" by simp
  then have f: "1 \<le> count (mset (flying s)) i"
    by (simp only: count_greater_eq_one_iff)
  have "count (mset (stored (history s))) i = 0 \<and> i < next_job s"
  proof (cases "i < next_job s")
    case True
    with inv_count_at [OF assms(1), of i] f show ?thesis by (simp only: if_True) arith
  next
    case False
    with inv_count_at [OF assms(1), of i] f show ?thesis by (simp only: if_False)
  qed
  then show ?thesis by (simp add: count_eq_zero_iff)
qed

lemma stored_bound:
  assumes "inv_count s" "i \<in> set (stored (history s))"
  shows "i < next_job s"
proof (rule ccontr)
  assume "\<not> i < next_job s"
  with inv_count_at [OF assms(1), of i]
  have "count (mset (stored (history s))) i = 0" by (simp only: if_False)
  with assms(2) show False by (simp add: count_eq_zero_iff)
qed


lemma Running_flying:
  assumes "k < length (workers s)" "workers s ! k = Running c i v"
  shows "i \<in> set (flying s)"
proof -
  from nth_mem [OF assms(1)] assms(2) have "Running c i v \<in> set (workers s)" by simp
  then have "i \<in> (\<Union>w\<in>set (workers s). set (flying_at w))"
    by (intro UN_I [where a = "Running c i v"]) simp_all
  then show ?thesis by (simp add: flying_def)
qed


lemma slots_result:
  assumes inv: "inv_slots zero items s" and fresh: "i \<notin> set (stored (history s))"
    and i: "i < length items" and len: "length (results s) = length items"
    and s': "results s' = (results s)[i := r]" "errs s' = errs s"
      "history s' = history s @ [SetResult i r]"
  shows "inv_slots zero items s'"
proof -
  have other: "j \<noteq> i" if "j \<in> set (stored (history s))" for j
    using that fresh by auto
  have a: "results s' ! j = q \<and> errs s' ! j = None" if "SetResult j q \<in> set (history s')" for j q
  proof (cases "SetResult j q \<in> set (history s)")
    case True
    with inv have "results s ! j = q \<and> errs s ! j = None" by (simp add: inv_slots_def)
    with other [OF SetResult_stored [OF True]] show ?thesis by (simp add: s')
  next
    case False
    with that have "j = i" "q = r" by (simp_all add: s')
    moreover from inv fresh i have "errs s ! i = None" by (simp add: inv_slots_def)
    ultimately show ?thesis using i len by (simp add: s')
  qed
  have b: "errs s' ! j = Some e \<and> results s' ! j = zero" if "SetError j e \<in> set (history s')" for j e
  proof -
    from that have old: "SetError j e \<in> set (history s)" by (simp add: s')
    with inv have "errs s ! j = Some e \<and> results s ! j = zero" by (simp add: inv_slots_def)
    with other [OF SetError_stored [OF old]] show ?thesis by (simp add: s')
  qed
  have c: "(j \<le> length items \<longrightarrow> errs s' ! j = None) \<and> (j < length items \<longrightarrow> results s' ! j = zero)"
    if "j \<notin> set (stored (history s'))" for j
  proof -
    from that have "j \<noteq> i" "j \<notin> set (stored (history s))" by (simp_all add: s')
    with inv show ?thesis by (simp add: inv_slots_def s')
  qed
  from a b c show ?thesis unfolding inv_slots_def by blast
qed

lemma slots_error:
  assumes inv: "inv_slots zero items s" and fresh: "i \<notin> set (stored (history s))"
    and i: "i < length items" and len: "length (errs s) = Suc (length items)"
    and s': "results s' = results s" "errs s' = (errs s)[i := Some e]"
      "history s' = history s @ [SetError i e]"
  shows "inv_slots zero items s'"
proof -
  have other: "j \<noteq> i" if "j \<in> set (stored (history s))" for j
    using that fresh by auto
  have a: "results s' ! j = q \<and> errs s' ! j = None" if "SetResult j q \<in> set (history s')" for j q
  proof -
    from that have old: "SetResult j q \<in> set (history s)" by (simp add: s')
    with inv have "results s ! j = q \<and> errs s ! j = None" by (simp add: inv_slots_def)
    with other [OF SetResult_stored [OF old]] show ?thesis by (simp add: s')
  qed
  have b: "errs s' ! j = Some d \<and> results s' ! j = zero" if "SetError j d \<in> set (history s')" for j d
  proof (cases "SetError j d \<in> set (history s)")
    case True
    with inv have "errs s ! j = Some d \<and> results s ! j = zero" by (simp add: inv_slots_def)
    with other [OF SetError_stored [OF True]] show ?thesis by (simp add: s')
  next
    case False
    with that have "j = i" "d = e" by (simp_all add: s')
    moreover from inv fresh i have "results s ! i = zero" by (simp add: inv_slots_def)
    ultimately show ?thesis using i len by (simp add: s')
  qed
  have c: "(j \<le> length items \<longrightarrow> errs s' ! j = None) \<and> (j < length items \<longrightarrow> results s' ! j = zero)"
    if "j \<notin> set (stored (history s'))" for j
  proof -
    from that have "j \<noteq> i" "j \<notin> set (stored (history s))" by (simp_all add: s')
    with inv show ?thesis by (simp add: inv_slots_def s')
  qed
  from a b c show ?thesis unfolding inv_slots_def by blast
qed

lemma inv_slots_exec:
  assumes "exec h items m s = Some s'" "inv_slots zero items s" "inv_count s"
    "inv_shape h items s"
  shows "inv_slots zero items s'"
  using assms(1)
proof (cases rule: exec_cases)
  case (ReturnOk k c i v r)
  from flying_fresh [OF assms(3) Running_flying [OF ReturnOk(2,3)]] assms(4)
  have i: "i \<notin> set (stored (history s))" "i < length items"
    "length (results s) = length items"
    by (simp_all add: inv_shape_def)
  show ?thesis by (rule slots_result [OF assms(2) i]) (simp_all add: ReturnOk(5))
next
  case (ReturnErrStop k c i v r e)
  from flying_fresh [OF assms(3) Running_flying [OF ReturnErrStop(2,3)]] assms(4)
  have i: "i \<notin> set (stored (history s))" "i < length items"
    "length (errs s) = Suc (length items)"
    by (simp_all add: inv_shape_def)
  show ?thesis by (rule slots_error [OF assms(2) i]) (simp_all add: ReturnErrStop(6))
next
  case (ReturnErrGo k c i v r e)
  from flying_fresh [OF assms(3) Running_flying [OF ReturnErrGo(2,3)]] assms(4)
  have i: "i \<notin> set (stored (history s))" "i < length items"
    "length (errs s) = Suc (length items)"
    by (simp_all add: inv_shape_def)
  show ?thesis by (rule slots_error [OF assms(2) i]) (simp_all add: ReturnErrGo(6))
qed (use assms(2) in \<open>simp_all add: inv_slots_def\<close>)

lemma Exited_update:
  "Exited \<in> set (ws[k := w]) \<Longrightarrow> w \<noteq> Exited \<Longrightarrow> Exited \<in> set ws"
  using set_update_subset_insert [of ws k w] by auto

lemma inv_causes_exec:
  assumes "exec h items m s = Some s'" "inv_causes h items s" "inv_shape h items s"
  shows "inv_causes h items s'"
  using assms(1)
proof (cases rule: exec_cases)
  case (SendJob)
  with assms(2) show ?thesis by (simp add: inv_causes_def)
next
  case (SendEnd)
  with assms(2,3) show ?thesis by (simp add: inv_causes_def inv_shape_def)
next
  case (WorkerTake k i v rest)
  with assms(2) Exited_update [of "workers s" k "Running Ambient i v"] show ?thesis
    by (auto simp: inv_causes_def)
next
  case (ReturnOk k c i v r)
  with assms(2) Exited_update [of "workers s" k Selecting] show ?thesis
    by (auto simp: inv_causes_def)
next
  case (ReturnErrGo k c i v r e)
  with assms(2) Exited_update [of "workers s" k Selecting] show ?thesis
    by (auto simp: inv_causes_def)
next
  case (ReturnErrStop k c i v r e)
  with assms(2) show ?thesis
    by (auto simp: inv_causes_def)
qed (use assms(2) in \<open>auto simp: inv_causes_def\<close>)

lemma inv_seen_exec:
  assumes "exec h items m s = Some s'" "inv_seen h items s" "inv_vals items s"
  shows "inv_seen h items s'"
  using assms(1)
proof (cases rule: exec_cases)
  case (ReturnOk k c i v r)
  from nth_mem [OF ReturnOk(2)] ReturnOk(3) have "Running c i v \<in> set (workers s)" by simp
  with assms(3) have "c = Ambient" "v = items ! i" by (auto simp: inv_vals_def)
  with ReturnOk assms(2) show ?thesis
    by (auto simp: inv_seen_def Err_def)
next
  case (ReturnErrStop k c i v r e)
  from nth_mem [OF ReturnErrStop(2)] ReturnErrStop(3)
  have "Running c i v \<in> set (workers s)" by simp
  with assms(3) have "c = Ambient" "v = items ! i" by (auto simp: inv_vals_def)
  with ReturnErrStop assms(2) show ?thesis
    by (auto simp: inv_seen_def Err_def)
next
  case (ReturnErrGo k c i v r e)
  from nth_mem [OF ReturnErrGo(2)] ReturnErrGo(3)
  have "Running c i v \<in> set (workers s)" by simp
  with assms(3) have "c = Ambient" "v = items ! i" by (auto simp: inv_vals_def)
  with ReturnErrGo assms(2) show ?thesis
    by (auto simp: inv_seen_def Err_def)
next
  case (CtxCancel e)
  with assms(2) show ?thesis by (fastforce simp: inv_seen_def)
qed (use assms(2) in \<open>auto simp: inv_seen_def\<close>)

lemma inv_start: "inv h zero items (start h zero ctx items)"
  by (auto simp: inv_def inv_shape_def inv_count_def inv_vals_def inv_slots_def inv_causes_def
      inv_seen_def start_def queued_def flying_def stored_def invoked_def nth_Cons')

lemma inv_exec:
  assumes "exec h items m s = Some s'" "inv h zero items s"
  shows "inv h zero items s'"
  using assms inv_shape_exec [OF assms(1)] inv_count_exec [OF assms(1)]
    inv_vals_exec [OF assms(1)] inv_slots_exec [OF assms(1)]
    inv_causes_exec [OF assms(1)] inv_seen_exec [OF assms(1)]
  by (simp add: inv_def)

lemma inv_run:
  assumes "run h items sch (start h zero ctx items) = Some s"
  shows "inv h zero items s"
  using assms inv_start inv_exec by (rule run_invariant)

subsection \<open>Every run can be finished, and is finite\<close>

lemma progress:
  assumes "\<not> wait_over s" "next_job s \<le> length items"
  shows "\<exists>m s'. \<not> is_CtxCancel m \<and> exec h items m s = Some s'"
proof -
  from assms(1) obtain k where k: "k < length (workers s)" and w: "workers s ! k \<noteq> Exited"
    by (auto simp: wait_over_def list_all_iff in_set_conv_nth)
  show ?thesis
  proof (cases "workers s ! k")
    case (Running c i v)
    with k have "exec h items (WorkerReturn k) s = Some (finish_call h k c i v s)" by simp
    then show ?thesis by (intro exI [of _ "WorkerReturn k"]) simp
  next
    case Exited
    with w show ?thesis by simp
  next
    case Selecting
    with k have sel: "selecting k s" by (simp add: selecting_def)
    show ?thesis
    proof (cases "child_done s")
      case True
      with sel have "exec h items (WorkerStop k) s = Some (set_worker k Exited s)" by simp
      then show ?thesis by (intro exI [of _ "WorkerStop k"]) simp
    next
      case False
      show ?thesis
      proof (cases "jobs s")
        case (Cons j rest)
        obtain i v where "j = (i, v)" by (cases j)
        with Cons sel have "exec h items (WorkerTake k) s \<noteq> None" by simp
        then show ?thesis by (intro exI [of _ "WorkerTake k"]) auto
      next
        case Nil
        show ?thesis
        proof (cases "closed s")
          case True
          with Nil sel have "exec h items (WorkerDrained k) s = Some (set_worker k Exited s)"
            by simp
          then show ?thesis by (intro exI [of _ "WorkerDrained k"]) simp
        next
          case still: False
          show ?thesis
          proof (cases "next_job s < length items")
            case True
            with still Nil have "exec h items SendJob s \<noteq> None" by auto
            then show ?thesis by (intro exI [of _ SendJob]) auto
          next
            case False
            with still have "exec h items SendEnd s \<noteq> None" by simp
            then show ?thesis by (intro exI [of _ SendEnd]) auto
          qed
        qed
      qed
    qed
  qed
qed

lemma next_job_exec:
  assumes "exec h items m s = Some s'" "next_job s \<le> length items"
  shows "next_job s' \<le> length items"
  using assms by (cases rule: exec_cases) auto

lemma can_finish:
  assumes "next_job s \<le> length items"
  shows "\<exists>ext s'. no_cancel ext \<and> run h items ext s = Some s' \<and> wait_over s'"
  using assms
proof (induction "steps_left items s" arbitrary: s rule: less_induct)
  case less
  show ?case
  proof (cases "wait_over s")
    case True
    then have "no_cancel [] \<and> run h items [] s = Some s \<and> wait_over s"
      by (simp add: no_cancel_def)
    then show ?thesis by blast
  next
    case False
    from progress [OF False less.prems, of h]
    obtain m s1 where m: "\<not> is_CtxCancel m" and s1: "exec h items m s = Some s1" by blast
    from less.hyps [OF exec_decreases [OF s1] next_job_exec [OF s1 less.prems]]
    obtain ext s' where ext: "no_cancel ext" "run h items ext s1 = Some s'" "wait_over s'"
      by blast
    from m s1 ext have "no_cancel (m # ext) \<and> run h items (m # ext) s = Some s' \<and> wait_over s'"
      by (simp add: no_cancel_def)
    then show ?thesis by blast
  qed
qed

lemma run_length:
  "run h items sch s = Some s' \<Longrightarrow> length sch + steps_left items s' \<le> steps_left items s"
proof (induction sch arbitrary: s)
  case Nil
  then show ?case by simp
next
  case (Cons m ms)
  then obtain s1 where s1: "exec h items m s = Some s1" and rest: "run h items ms s1 = Some s'"
    by (auto split: option.splits)
  from Cons.IH [OF rest] exec_decreases [OF s1] show ?case by simp
qed

lemma ctx_err_exec:
  assumes "exec h items m s = Some s'" "\<not> is_CtxCancel m"
  shows "ctx_err s' = ctx_err s"
  using assms by (cases rule: exec_cases) auto

lemma ctx_err_run:
  "run h items sch s = Some s' \<Longrightarrow> no_cancel sch \<Longrightarrow> ctx_err s' = ctx_err s"
proof (induction sch arbitrary: s)
  case Nil
  then show ?case by simp
next
  case (Cons m ms)
  then obtain s1 where s1: "exec h items m s = Some s1" and rest: "run h items ms s1 = Some s'"
    by (auto split: option.splits)
  from Cons.prems(2) have "\<not> is_CtxCancel m" "no_cancel ms" by (simp_all add: no_cancel_def)
  with Cons.IH [OF rest] ctx_err_exec [OF s1] show ?case by simp
qed



lemma wait_over_flying: "wait_over s \<Longrightarrow> flying s = []"
  by (auto simp: wait_over_def flying_def list_all_iff)

lemma wait_over_Exited:
  "wait_over s \<Longrightarrow> workers s \<noteq> [] \<Longrightarrow> Exited \<in> set (workers s)"
  by (cases "workers s") (auto simp: wait_over_def)

lemma all_stored:
  assumes "inv h zero items s" "wait_over s" "workers s \<noteq> []" "child_err s = None"
  shows "next_job s = length items \<and> jobs s = []
         \<and> mset (stored (history s)) = mset [0..<length items]
         \<and> mset (invoked (history s)) = mset [0..<length items]"
proof -
  from assms(1) have c: "inv_causes h items s" and n: "inv_count s" by (simp_all add: inv_def)
  from c wait_over_Exited [OF assms(2,3)] assms(4) have j: "jobs s = []" "closed s"
    by (simp_all add: inv_causes_def)
  with c assms(4) have "next_job s = length items" by (simp add: inv_causes_def)
  with n j wait_over_flying [OF assms(2)] show ?thesis
    by (simp add: inv_count_def queued_def)
qed

lemma Join_None: "Join es = None \<longleftrightarrow> (\<forall>e. Some e \<notin> set es)"
proof -
  have "[e. Some e \<leftarrow> es] = [] \<longleftrightarrow> (\<forall>e. Some e \<notin> set es)"
    by (induction es) (auto split: option.splits)
  then show ?thesis by (simp add: Join_def Let_def)
qed



subsection \<open>What a call of Execute is made of\<close>

lemma Execute_pool_Some:
  assumes "Execute_pool h zero ctx items sch = Some s"
  shows "items \<noteq> []" "0 \<le> numWorkers h items"
    "run h items sch (start h zero ctx items) = Some s" "inv h zero items s"
proof -
  from assms show a: "items \<noteq> []" and b: "0 \<le> numWorkers h items"
    by (auto simp: Execute_pool_def split: if_splits)
  with assms show c: "run h items sch (start h zero ctx items) = Some s"
    by (simp add: Execute_pool_def)
  then show "inv h zero items s" by (rule inv_run)
qed

lemma Execute_Some:
  assumes "Execute h zero ctx items sch = Some ex"
  obtains (Empty) "items = []" "ex = \<lparr>returned = Return None None, spawned = 0, observed = []\<rparr>"
  | (Panic) "items \<noteq> []" "numWorkers h items < 0"
      "ex = \<lparr>returned = PanicNegativeCounter, spawned = 0, observed = []\<rparr>"
  | (Pool) s where "Execute_pool h zero ctx items sch = Some s" "wait_over s"
      "ex = \<lparr>returned = collect s, spawned = length (workers s), observed = history s\<rparr>"
  using assms
  by (auto simp: Execute_def Execute_pool_def split: if_splits option.splits)

lemma inv_slotsD:
  assumes "inv_slots zero items s"
  shows "SetResult i r \<in> set (history s) \<Longrightarrow> results s ! i = r \<and> errs s ! i = None"
    and "SetError i e \<in> set (history s) \<Longrightarrow> errs s ! i = Some e \<and> results s ! i = zero"
    and "i \<notin> set (stored (history s)) \<Longrightarrow> i \<le> length items \<Longrightarrow> errs s ! i = None"
    and "i \<notin> set (stored (history s)) \<Longrightarrow> i < length items \<Longrightarrow> results s ! i = zero"
  using assms unfolding inv_slots_def by blast+


lemma ctx_err_keep:
  assumes "exec h items m s = Some s'" "ctx_err s \<noteq> None"
  shows "ctx_err s' = ctx_err s"
  using assms by (cases rule: exec_cases) auto

lemma ctx_err_cancelled:
  "run h items sch s = Some s' \<Longrightarrow> ctx_err s' \<noteq> None \<longleftrightarrow> ctx_err s \<noteq> None \<or> \<not> no_cancel sch"
proof (induction sch arbitrary: s)
  case Nil
  then show ?case by (simp add: no_cancel_def)
next
  case (Cons m ms)
  then obtain s1 where s1: "exec h items m s = Some s1" and rest: "run h items ms s1 = Some s'"
    by (auto split: option.splits)
  have "ctx_err s1 \<noteq> None \<longleftrightarrow> ctx_err s \<noteq> None \<or> is_CtxCancel m"
    using s1 by (cases rule: exec_cases) auto
  with Cons.IH [OF rest] show ?case by (auto simp: no_cancel_def)
qed



lemma start_simps [simp]:
  "ctx_err (start h zero ctx items) = ctx"
  "next_job (start h zero ctx items) = 0"
  "workers (start h zero ctx items) = replicate (nat (numWorkers h items)) Selecting"
  by (simp_all add: start_def)

lemma numWorkers_pos:
  "items \<noteq> [] \<Longrightarrow> 1 \<le> concurrency h \<Longrightarrow> 1 \<le> numWorkers h items"
  by (cases items) (simp_all add: numWorkers_def Let_def)

lemma Execute_can_return:
  assumes "Execute_pool h zero ctx items sch = Some s"
  shows "\<exists>ext ex. no_cancel ext \<and> Execute h zero ctx items (sch @ ext) = Some ex"
proof -
  note p = Execute_pool_Some [OF assms]
  from p(4) have "next_job s \<le> length items" by (simp add: inv_def inv_shape_def)
  from can_finish [OF this, of h] obtain ext s'
    where ext: "no_cancel ext" "run h items ext s = Some s'" "wait_over s'"
    by blast
  from p(3) ext(2) have "run h items (sch @ ext) (start h zero ctx items) = Some s'"
    by (simp add: run_append)
  with p(1,2) ext(3) have "Execute h zero ctx items (sch @ ext)
      = Some \<lparr>returned = collect s', spawned = length (workers s'), observed = history s'\<rparr>"
    by (simp add: Execute_def)
  with ext(1) show ?thesis by blast
qed

lemma Execute_pool_start:
  "items \<noteq> [] \<Longrightarrow> 0 \<le> numWorkers h items
   \<Longrightarrow> Execute_pool h zero ctx items [] = Some (start h zero ctx items)"
  by (simp add: Execute_pool_def)

lemma Execute_pool_length:
  assumes "Execute_pool h zero ctx items sch = Some s"
  shows "length sch \<le> 3 * length items + nat (numWorkers h items) + 3"
proof -
  from run_length [OF Execute_pool_Some(3) [OF assms]]
  have "length sch \<le> steps_left items (start h zero ctx items)" by simp
  also have "\<dots> \<le> 3 * length items + nat (numWorkers h items) + 3"
    by (simp add: steps_left_def start_def sum_list_replicate)
  finally show ?thesis .
qed

lemma inv_seenD:
  assumes "inv_seen h items s" "ctx_err s = None"
  shows "SetResult i r \<in> set (history s) \<Longrightarrow> mapFunc h Ambient None (items ! i) = (r, None)"
    and "SetError i e \<in> set (history s) \<Longrightarrow> \<exists>r. mapFunc h Ambient None (items ! i) = (r, Some e)"
  using assms unfolding inv_seen_def by metis+

lemma stored_index:
  assumes "inv h zero items s" "i \<in> set (stored (history s))"
  shows "i < length items"
proof -
  from assms(1) have "inv_count s" "inv_shape h items s" by (simp_all add: inv_def)
  with stored_bound [OF this(1) assms(2)] show ?thesis by (simp add: inv_shape_def)
qed

lemma errs_all_nil:
  assumes "inv h zero items s" "\<And>i e. SetError i e \<notin> set (history s)"
  shows "Some e \<notin> set (errs s)"
proof
  assume "Some e \<in> set (errs s)"
  then obtain j where j: "j < length (errs s)" "errs s ! j = Some e"
    by (auto simp: in_set_conv_nth)
  from assms(1) have sl: "inv_slots zero items s" and sh: "inv_shape h items s"
    by (simp_all add: inv_def)
  from j(1) sh have le: "j \<le> length items" by (simp add: inv_shape_def)
  show False
  proof (cases "j \<in> set (stored (history s))")
    case True
    from stored_cases [OF True] assms(2) obtain r where "SetResult j r \<in> set (history s)"
      by blast
    from inv_slotsD(1) [OF sl this] j(2) show False by simp
  next
    case False
    from inv_slotsD(3) [OF sl False le] j(2) show False by simp
  qed
qed

lemma collect_clean:
  assumes "\<And>e. Some e \<notin> set (errs s)" "ctx_err s = None"
  shows "collect s = Return (Some (results s)) None"
proof -
  from assms have "Join (final_errs s) = None" by (auto simp: Join_None final_errs_def)
  then show ?thesis by (simp add: collect_def)
qed



section \<open>Theorems about Execute\<close>

subsection \<open>All transforms succeed\<close>

text \<open>
  C1 (amended). For a non-empty input, a concurrency of at least 1 and a transform
  that succeeds on every element of the input (when handed the caller's context, not
  cancelled), every run in which the caller's context is not cancelled, neither on
  entry nor before \<open>Execute\<close> reads \<open>ctx.Err()\<close>, returns a nil error and a slice as
  long as the input whose \<open>i\<close>-th element is the transform's result on the \<open>i\<close>-th
  element of the input.
  \<open>Execute\<close> does return: every run of the pool can be continued, with no
  cancellation added, to the return of \<open>Execute\<close>, and no run is longer than
  \<open>3 * len(items) + numWorkers + 3\<close> steps.
\<close>

theorem Execute_success:
  assumes "items \<noteq> []" and "1 \<le> concurrency h"
    and "\<forall>x\<in>set items. snd (mapFunc h Ambient None x) = None"
  shows "(\<forall>sch ex. no_cancel sch \<and> Execute h zero None items sch = Some ex \<longrightarrow>
            (\<exists>out. returned ex = Return (Some out) None \<and> length out = length items
               \<and> (\<forall>i<length items. out ! i = fst (mapFunc h Ambient None (items ! i)))))
    \<and> (\<forall>sch s. Execute_pool h zero None items sch = Some s \<longrightarrow>
            length sch \<le> 3 * length items + nat (numWorkers h items) + 3
            \<and> (\<exists>ext ex. no_cancel ext \<and> Execute h zero None items (sch @ ext) = Some ex))
    \<and> Execute_pool h zero None items [] = Some (start h zero None items)"
proof -
  from numWorkers_pos [OF assms(1,2)] have nw: "1 \<le> numWorkers h items" .
  have a: "\<exists>out. returned ex = Return (Some out) None \<and> length out = length items
               \<and> (\<forall>i<length items. out ! i = fst (mapFunc h Ambient None (items ! i)))"
    if nc: "no_cancel sch" and ex: "Execute h zero None items sch = Some ex" for sch ex
    using ex
  proof (cases rule: Execute_Some)
    case Empty
    with assms(1) show ?thesis by simp
  next
    case Panic
    with nw show ?thesis by simp
  next
    case (Pool s)
    note p = Execute_pool_Some [OF Pool(1)]
    from p(4) have sl: "inv_slots zero items s" and sh: "inv_shape h items s"
      and ca: "inv_causes h items s" and se: "inv_seen h items s"
      by (simp_all add: inv_def)
    from ctx_err_run [OF p(3) nc] have ctx: "ctx_err s = None" by simp
    have no_err: "SetError i e \<notin> set (history s)" for i e
    proof
      assume e: "SetError i e \<in> set (history s)"
      from inv_seenD(2) [OF se ctx e] obtain r
        where "mapFunc h Ambient None (items ! i) = (r, Some e)" by blast
      moreover from stored_index [OF p(4) SetError_stored [OF e]] have "items ! i \<in> set items"
        by simp
      ultimately show False using assms(3) by fastforce
    qed
    from ca ctx no_err have child: "child_err s = None" by (auto simp: inv_causes_def)
    from sh nw have "workers s \<noteq> []" by (auto simp: inv_shape_def)
    from all_stored [OF p(4) Pool(2) this child]
    have all: "mset (stored (history s)) = mset [0..<length items]" by simp
    have res: "results s ! i = fst (mapFunc h Ambient None (items ! i))" if "i < length items" for i
    proof -
      from that have "i \<in># mset [0..<length items]" by simp
      with all have "i \<in> set (stored (history s))" by (metis set_mset_mset)
      from stored_cases [OF this] no_err obtain r where r: "SetResult i r \<in> set (history s)"
        by blast
      from inv_slotsD(1) [OF sl r] inv_seenD(1) [OF se ctx r] show ?thesis by simp
    qed
    from collect_clean [OF errs_all_nil [OF p(4) no_err] ctx]
    have "returned ex = Return (Some (results s)) None" by (simp add: Pool(3))
    moreover from sh have "length (results s) = length items" by (simp add: inv_shape_def)
    ultimately show ?thesis using res by blast
  qed
  have b: "length sch \<le> 3 * length items + nat (numWorkers h items) + 3
            \<and> (\<exists>ext ex. no_cancel ext \<and> Execute h zero None items (sch @ ext) = Some ex)"
    if "Execute_pool h zero None items sch = Some s" for sch s
    using Execute_pool_length [OF that] Execute_can_return [OF that] by blast
  from nw have "0 \<le> numWorkers h items" by simp
  from a b Execute_pool_start [OF assms(1) this] show ?thesis by blast
qed

theorem Execute_success_witness:
  "Execute (WithConcurrency 3 (MapConcurrent double)) 0 None [1, 2, 3, 4, 5]
     [SendJob, SendJob, WorkerTake 2, SendJob, WorkerTake 0, WorkerTake 1, SendJob, SendJob,
      WorkerReturn 1, WorkerTake 1, WorkerReturn 0, SendEnd, WorkerReturn 2, WorkerTake 2,
      WorkerDrained 0, WorkerReturn 2, WorkerReturn 1, WorkerDrained 1, WorkerDrained 2]
   = Some \<lparr>returned = Return (Some [2, 4, 6, 8, 10]) None, spawned = 3,
       observed = [Invoke Ambient 0 1, Invoke Ambient 1 2, Invoke Ambient 2 3, SetResult 2 6,
         Invoke Ambient 3 4, SetResult 1 4, SetResult 0 2, Invoke Ambient 4 5, SetResult 4 10,
         SetResult 3 8]\<rparr>
   \<and> (\<exists>out. Return (Some [2, 4, 6, 8, 10]) None = (Return (Some out) None :: (int, string) outcome)
         \<and> length out = 5 \<and> out ! 4 = fst (double Ambient None 5))"
proof -
  let ?h = "WithConcurrency 3 (MapConcurrent double)"
  let ?sch = "[SendJob, SendJob, WorkerTake 2, SendJob, WorkerTake 0, WorkerTake 1, SendJob,
      SendJob, WorkerReturn 1, WorkerTake 1, WorkerReturn 0, SendEnd, WorkerReturn 2,
      WorkerTake 2, WorkerDrained 0, WorkerReturn 2, WorkerReturn 1, WorkerDrained 1,
      WorkerDrained 2] :: string move list"
  have p: "Execute ?h 0 None [1, 2, 3, 4, 5] ?sch
   = Some \<lparr>returned = Return (Some [2, 4, 6, 8, 10]) None, spawned = 3,
       observed = [Invoke Ambient 0 1, Invoke Ambient 1 2, Invoke Ambient 2 3, SetResult 2 6,
         Invoke Ambient 3 4, SetResult 1 4, SetResult 0 2, Invoke Ambient 4 5, SetResult 4 10,
         SetResult 3 8]\<rparr>"
    by code_simp
  have n: "no_cancel ?sch" by code_simp
  have h1: "[1, 2, 3, 4, 5 :: int] \<noteq> []" by simp
  have h2: "1 \<le> concurrency ?h" by (simp add: WithConcurrency_def MapConcurrent_def)
  have h3: "\<forall>x\<in>set [1, 2, 3, 4, 5 :: int]. snd (mapFunc ?h Ambient None x) = None"
    by (simp add: WithConcurrency_def MapConcurrent_def double_def)
  from Execute_success [OF h1 h2 h3, of 0] n p
  have "\<exists>out. Return (Some [2, 4, 6, 8, 10]) None = (Return (Some out) None :: (int, string) outcome)
         \<and> length out = 5 \<and> out ! 4 = fst (double Ambient None 5)"
    by (fastforce simp: WithConcurrency_def MapConcurrent_def)
  with p show ?thesis by blast
qed

theorem Execute_success_counterexample:
  "(\<forall>c seen x. snd (double c seen x) = None)
   \<and> Execute (WithConcurrency 3 (MapConcurrent double)) 0 None [1, 2, 3, 4, 5]
     [SendJob, SendJob, WorkerTake 2, SendJob, WorkerTake 0, WorkerTake 1, SendJob, SendJob,
      WorkerReturn 1, WorkerTake 1, WorkerReturn 0, SendEnd, WorkerReturn 2, WorkerTake 2,
      WorkerDrained 0, WorkerReturn 2, WorkerReturn 1, CtxCancel DeadlineExceeded,
      CtxReachesChild, WorkerStop 1, WorkerStop 2]
   = Some \<lparr>returned = Return None (Some (Joined [DeadlineExceeded])), spawned = 3,
       observed = [Invoke Ambient 0 1, Invoke Ambient 1 2, Invoke Ambient 2 3, SetResult 2 6,
         Invoke Ambient 3 4, SetResult 1 4, SetResult 0 2, Invoke Ambient 4 5, SetResult 4 10,
         SetResult 3 8]\<rparr>"
proof -
  have "Execute (WithConcurrency 3 (MapConcurrent double)) 0 None [1, 2, 3, 4, 5]
     [SendJob, SendJob, WorkerTake 2, SendJob, WorkerTake 0, WorkerTake 1, SendJob, SendJob,
      WorkerReturn 1, WorkerTake 1, WorkerReturn 0, SendEnd, WorkerReturn 2, WorkerTake 2,
      WorkerDrained 0, WorkerReturn 2, WorkerReturn 1, CtxCancel DeadlineExceeded,
      CtxReachesChild, WorkerStop 1, WorkerStop 2]
   = Some \<lparr>returned = Return None (Some (Joined [DeadlineExceeded])), spawned = 3,
       observed = [Invoke Ambient 0 1, Invoke Ambient 1 2, Invoke Ambient 2 3, SetResult 2 6,
         Invoke Ambient 3 4, SetResult 1 4, SetResult 0 2, Invoke Ambient 4 5, SetResult 4 10,
         SetResult 3 8]\<rparr>"
    by code_simp
  then show ?thesis by (simp add: double_def)
qed

subsection \<open>Failures withhold the output\<close>



subsection \<open>The collect-all policy\<close>




subsection \<open>The number of workers\<close>



subsection \<open>The layout of errs\<close>




subsection \<open>The context handed to the transform\<close>



subsection \<open>The empty input\<close>

text \<open>
  C7. For the empty input \<open>Execute\<close> returns a nil slice and a nil error, starts no
  worker and never calls the transform, whatever the handler, the context and the
  schedule; no pool is set up.
\<close>

theorem Execute_empty:
  "Execute h zero ctx [] sch = Some \<lparr>returned = Return None None, spawned = 0, observed = []\<rparr>
   \<and> Execute_pool h zero ctx [] sch = None"
  by (simp add: Execute_def Execute_pool_def)

theorem Execute_empty_witness:
  "Execute (WithConcurrency 3 (MapConcurrent double)) 0 (Some Canceled) [] [SendJob, CtxCancel Canceled]
     = Some \<lparr>returned = Return None None, spawned = 0, observed = []\<rparr>
   \<and> Execute_pool (WithConcurrency 3 (MapConcurrent double)) 0 (Some Canceled) [] [SendJob, CtxCancel Canceled] = None"
  using Execute_empty [of "WithConcurrency 3 (MapConcurrent double)" 0 "Some Canceled"
      "[SendJob, CtxCancel Canceled]"]
  by simp

subsection \<open>Result and error slots\<close>



subsection \<open>A concurrency below one\<close>




end
